theory Spec2Isabelle
  imports Main "HOL-Library.Multiset"
begin

section \<open>The event model (internal/model/event.go)\<close>

text \<open>
  \<open>EventType\<close> is a Go string type with four named constants. A \<open>time.Time\<close> is
  modelled by the instant it denotes, as an integer count of nanoseconds since the Unix
  epoch (the unit of \<open>time.Duration\<close>): \<open>Before\<close> is \<open><\<close>, \<open>After\<close> is \<open>>\<close>,
  \<open>Add\<close> is \<open>+\<close>.
\<close>

type_synonym EventType = string
type_synonym Time = int

definition EventLaunchpool :: EventType where "EventLaunchpool = ''launchpool''"
definition EventListing :: EventType where "EventListing = ''listing''"
definition EventUnlock :: EventType where "EventUnlock = ''unlock''"
definition EventAirdrop :: EventType where "EventAirdrop = ''airdrop''"

record Event =
  ID :: string
  Type :: EventType
  Source :: string
  Token :: string
  Title :: string
  Date :: Time
  URL :: string
  Details :: string
  SentDigest :: bool
  Sent24h :: bool
  Sent2h :: bool

definition Hour :: int where "Hour = 3600000000000"

text \<open>
  \<open>t.UTC().Format("20060102")\<close> prints the UTC calendar date of the instant. Two instants
  get the same text exactly when they lie on the same UTC calendar day, so the number of
  that day (whole days since the epoch, rounded down) stands for the text.
\<close>

definition utc_day :: "Time \<Rightarrow> int" where
  "utc_day t = t div (24 * Hour)"

section \<open>Cross-source deduplication (internal/calendar/aggregator.go)\<close>

definition sourcePriority :: "string \<Rightarrow> int" where
  "sourcePriority source =
     (if source = ''binance'' then 1
      else if source = ''bybit'' then 2
      else if source = ''okx'' then 3
      else if source = ''tokenunlocks'' then 4
      else if source = ''airdrops'' then 5
      else 99)"

text \<open>The local struct \<open>key\<close> of \<open>deduplicateCrossSource\<close>: token, date text, type.\<close>

type_synonym key = "string \<times> int \<times> EventType"

definition event_key :: "Event \<Rightarrow> key" where
  "event_key e = (Token e, utc_day (Date e), Type e)"

text \<open>
  Reading a Go map at a missing key gives the zero value, here the nil slice.
\<close>

definition group_of :: "(key \<rightharpoonup> Event list) \<Rightarrow> key \<Rightarrow> Event list" where
  "group_of groups k = (case groups k of None \<Rightarrow> [] | Some g \<Rightarrow> g)"

text \<open>
  The first loop: \<open>groups\<close> and \<open>order\<close> are threaded through the events from left to
  right; a key is appended to \<open>order\<close> when it is not yet in \<open>groups\<close>.
\<close>

fun group_events ::
  "Event list \<Rightarrow> (key \<rightharpoonup> Event list) \<Rightarrow> key list \<Rightarrow> (key \<rightharpoonup> Event list) \<times> key list" where
  "group_events [] groups order = (groups, order)"
| "group_events (e # es) groups order =
     (let k = event_key e
      in group_events es
           (groups(k \<mapsto> group_of groups k @ [e]))
           (if groups k = None then order @ [k] else order))"

text \<open>The inner loop over \<open>group[1:]\<close> that picks the winner, started at \<open>group[0]\<close>.\<close>

fun pick_winner :: "Event \<Rightarrow> Event list \<Rightarrow> Event" where
  "pick_winner winner [] = winner"
| "pick_winner winner (e # es) =
     pick_winner
       (if sourcePriority (Source e) < sourcePriority (Source winner) then e else winner) es"

text \<open>The loop that merges the sent flags of all group members into the winner.\<close>

definition merge_one :: "Event \<Rightarrow> Event \<Rightarrow> Event" where
  "merge_one e winner =
     (let w1 = (if SentDigest e then winner\<lparr>SentDigest := True\<rparr> else winner);
          w2 = (if Sent24h e then w1\<lparr>Sent24h := True\<rparr> else w1)
      in (if Sent2h e then w2\<lparr>Sent2h := True\<rparr> else w2))"

fun merge_flags :: "Event \<Rightarrow> Event list \<Rightarrow> Event" where
  "merge_flags winner [] = winner"
| "merge_flags winner (e # es) = merge_flags (merge_one e winner) es"

text \<open>
  The body of the second loop for one group. \<open>group[0]\<close> on an empty slice is an index
  panic: the result \<open>None\<close>.
\<close>

fun resolve_group :: "Event list \<Rightarrow> Event option" where
  "resolve_group [] = None"
| "resolve_group (e0 # rest) =
     Some (if rest = [] then e0 else merge_flags (pick_winner e0 rest) (e0 # rest))"

fun collect_winners :: "(key \<rightharpoonup> Event list) \<Rightarrow> key list \<Rightarrow> Event list option" where
  "collect_winners groups [] = Some []"
| "collect_winners groups (k # ks) =
     (case resolve_group (group_of groups k) of
        None \<Rightarrow> None
      | Some w \<Rightarrow> (case collect_winners groups ks of None \<Rightarrow> None | Some out \<Rightarrow> Some (w # out)))"

definition dedup_run :: "Event list \<Rightarrow> Event list option" where
  "dedup_run events =
     (case group_events events Map.empty [] of (groups, order) \<Rightarrow> collect_winners groups order)"

text \<open>
  \<open>deduplicateCrossSource\<close> itself. Every key in \<open>order\<close> was stored in \<open>groups\<close> with
  a non-empty slice, so the index panic cannot happen (lemma \<open>dedup_run_total\<close> below) and
  the function always returns a slice.
\<close>

definition deduplicateCrossSource :: "Event list \<Rightarrow> Event list" where
  "deduplicateCrossSource events = (case dedup_run events of Some out \<Rightarrow> out | None \<Rightarrow> [])"

text \<open>
  The vocabulary of the specification of the reconciler: the members of the group of a key,
  in input order, and the distinct keys of a list in the order of their first appearance
  (\<open>seen\<close> holds the keys already met).
\<close>

definition members :: "key \<Rightarrow> Event list \<Rightarrow> Event list" where
  "members k events = filter (\<lambda>e. event_key e = k) events"

fun first_seen :: "key list \<Rightarrow> key list \<Rightarrow> key list" where
  "first_seen seen [] = []"
| "first_seen seen (k # ks) =
     (if k \<in> set seen then first_seen seen ks else k # first_seen (k # seen) ks)"

section \<open>The cache and the aggregator (internal/calendar/aggregator.go)\<close>

text \<open>
  The field \<open>cache\<close> of the aggregator is a Go map from id to event. Ranging over a Go map
  visits its entries in an unspecified order; where the order shows in a result
  (\<open>allEvents\<close>), the order is a parameter: a list of the keys of the map, each once.
  \<open>saveCache\<close> only reads the cache and writes a file, with failures logged, so it does
  not appear in the model of the in-memory state.
\<close>

type_synonym Cache = "string \<rightharpoonup> Event"

definition iteration_of :: "Cache \<Rightarrow> string list \<Rightarrow> bool" where
  "iteration_of c ks \<longleftrightarrow> distinct ks \<and> set ks = dom c"

definition allEvents :: "string list \<Rightarrow> Cache \<Rightarrow> Event list" where
  "allEvents ks c = concat (map (\<lambda>k. case c k of None \<Rightarrow> [] | Some e \<Rightarrow> [e]) ks)"

text \<open>The first loop of \<open>Refresh\<close> under the lock: upsert, keeping the flags of an existing entry.\<close>

definition upsert :: "Event \<Rightarrow> Cache \<Rightarrow> Cache" where
  "upsert e c =
     (case c (ID e) of
        Some existing \<Rightarrow>
          c(ID e \<mapsto> e\<lparr>SentDigest := SentDigest existing, Sent24h := Sent24h existing,
                        Sent2h := Sent2h existing\<rparr>)
      | None \<Rightarrow> c(ID e \<mapsto> e))"

fun merge_fresh :: "Event list \<Rightarrow> Cache \<Rightarrow> Cache" where
  "merge_fresh [] c = c"
| "merge_fresh (e # es) c = merge_fresh es (upsert e c)"

text \<open>
  The second loop: for each winner, every cache entry under another id with the winner's
  token, day and type is deleted. The inner loop ranges over the map and deletes only the
  entry it is visiting, on a test that reads only that entry and the winner, so its result
  does not depend on the order of the visit.
\<close>

definition drop_losers :: "Event \<Rightarrow> Cache \<Rightarrow> Cache" where
  "drop_losers winner c =
     (\<lambda>eid. case c eid of
        None \<Rightarrow> None
      | Some cached \<Rightarrow>
          if eid = ID winner then Some cached
          else if Token cached = Token winner \<and>
                  utc_day (Date cached) = utc_day (Date winner) \<and>
                  Type cached = Type winner
          then None else Some cached)"

fun drop_all_losers :: "Event list \<Rightarrow> Cache \<Rightarrow> Cache" where
  "drop_all_losers [] c = c"
| "drop_all_losers (winner # ws) c = drop_all_losers ws (drop_losers winner c)"

text \<open>The third loop: entries dated before \<open>now - 48h\<close> are deleted.\<close>

definition evict :: "Time \<Rightarrow> Cache \<Rightarrow> Cache" where
  "evict now c =
     (let cutoff = now + (- 48) * Hour
      in (\<lambda>eid. case c eid of
            None \<Rightarrow> None
          | Some e \<Rightarrow> if Date e < cutoff then None else Some e))"

text \<open>
  \<open>Refresh\<close>: \<open>scanned\<close> is what the scan phase delivered (the concatenation of the
  scanners' results in the order they arrived, a failed scanner giving nothing), \<open>now\<close> the
  clock read for the cutoff, \<open>ks\<close> the order in which the final \<open>allEvents\<close> visits the
  map. \<open>merge_cache\<close> is the state of the cache after the first two loops, where the
  eviction loop starts. The result is the returned slice and the cache left behind.
\<close>

definition merge_cache :: "Event list \<Rightarrow> Cache \<Rightarrow> Cache" where
  "merge_cache scanned c =
     (let fresh = deduplicateCrossSource scanned
      in drop_all_losers fresh (merge_fresh fresh c))"

definition Refresh_cache :: "Time \<Rightarrow> Event list \<Rightarrow> Cache \<Rightarrow> Cache" where
  "Refresh_cache now scanned c = evict now (merge_cache scanned c)"

definition Refresh :: "string list \<Rightarrow> Time \<Rightarrow> Event list \<Rightarrow> Cache \<Rightarrow> Event list \<times> Cache" where
  "Refresh ks now scanned c =
     (let c' = Refresh_cache now scanned c in (allEvents ks c', c'))"

definition Events :: "string list \<Rightarrow> Cache \<Rightarrow> Event list" where
  "Events ks c = deduplicateCrossSource (allEvents ks c)"

definition MarkSentDigest :: "string \<Rightarrow> Cache \<Rightarrow> Cache" where
  "MarkSentDigest eid c =
     (case c eid of Some e \<Rightarrow> c(eid \<mapsto> e\<lparr>SentDigest := True\<rparr>) | None \<Rightarrow> c)"

definition MarkSent24h :: "string \<Rightarrow> Cache \<Rightarrow> Cache" where
  "MarkSent24h eid c =
     (case c eid of Some e \<Rightarrow> c(eid \<mapsto> e\<lparr>Sent24h := True\<rparr>) | None \<Rightarrow> c)"

definition MarkSent2h :: "string \<Rightarrow> Cache \<Rightarrow> Cache" where
  "MarkSent2h eid c =
     (case c eid of Some e \<Rightarrow> c(eid \<mapsto> e\<lparr>Sent2h := True\<rparr>) | None \<Rightarrow> c)"

text \<open>No two entries of the cache stand for the same token, day and type.\<close>

definition unique_keys :: "Cache \<Rightarrow> bool" where
  "unique_keys c \<longleftrightarrow>
     (\<forall>i j e1 e2. c i = Some e1 \<and> c j = Some e2 \<and> event_key e1 = event_key e2 \<longrightarrow> i = j)"

section \<open>Window selection (the calendar package's queries)\<close>

text \<open>
  \<open>sortByDate\<close> calls \<open>sort.Slice\<close> with \<open>Date.Before\<close> as the order. \<open>sort.Slice\<close> is
  not stable; the model sorts by insertion, and the theorems about it use only that the
  result is a rearrangement of the input in ascending date order.
\<close>

definition sortByDate :: "Event list \<Rightarrow> Event list" where
  "sortByDate events = sort_key Date events"

text \<open>\<open>EventsTomorrow\<close>, with the clock it reads as the parameter \<open>now\<close>.\<close>

definition EventsTomorrow :: "Time \<Rightarrow> Event list \<Rightarrow> Event list" where
  "EventsTomorrow now events =
     (let from = now + 20 * Hour; to = now + 28 * Hour
      in sortByDate (filter (\<lambda>e. \<not> Sent24h e \<and> Date e > from \<and> Date e < to) events))"

section \<open>Notions used in the statements and proofs\<close>

text \<open>
  The source priority of an event, and an event with its three flags replaced by the union
  of the flags over a group.
\<close>

abbreviation prio :: "Event \<Rightarrow> int" where "prio e \<equiv> sourcePriority (Source e)"

definition union_flags :: "Event list \<Rightarrow> Event \<Rightarrow> Event" where
  "union_flags g m = m\<lparr>SentDigest := (\<exists>e \<in> set g. SentDigest e),
       Sent24h := (\<exists>e \<in> set g. Sent24h e), Sent2h := (\<exists>e \<in> set g. Sent2h e)\<rparr>"

text \<open>The fields of an event other than its three sent flags.\<close>

definition other_fields ::
  "Event \<Rightarrow> string \<times> EventType \<times> string \<times> string \<times> string \<times> Time \<times> string \<times> string" where
  "other_fields e = (ID e, Type e, Source e, Token e, Title e, Date e, URL e, Details e)"

section \<open>Sample data\<close>

definition day0 :: Time where "day0 = 1768003200000000000"

definition foo_bybit :: Event where
  "foo_bybit = \<lparr>ID = ''bybit:FOO:20260110'', Type = ''listing'', Source = ''bybit'',
     Token = ''FOO'', Title = ''FOO on Bybit'', Date = day0, URL = ''u'', Details = ''d'',
     SentDigest = False, Sent24h = False, Sent2h = False\<rparr>"

definition foo_binance :: Event where
  "foo_binance = \<lparr>ID = ''binance:FOO:20260110'', Type = ''listing'', Source = ''binance'',
     Token = ''FOO'', Title = ''FOO on Binance'', Date = day0 + Hour, URL = ''u'', Details = ''d'',
     SentDigest = False, Sent24h = False, Sent2h = False\<rparr>"

definition sample_cache :: Cache where
  "sample_cache = [''bybit:FOO:20260110'' \<mapsto> foo_bybit\<lparr>SentDigest := True\<rparr>]"

definition dup_cache :: Cache where
  "dup_cache = [''bybit:FOO:20260110'' \<mapsto> foo_bybit, ''binance:FOO:20260110'' \<mapsto> foo_binance]"

definition bar_okx :: Event where
  "bar_okx = \<lparr>ID = ''okx:BAR:20260110'', Type = ''launchpool'', Source = ''okx'',
     Token = ''BAR'', Title = ''BAR pool'', Date = day0 + 2 * Hour, URL = ''u'', Details = ''d'',
     SentDigest = False, Sent24h = True, Sent2h = False\<rparr>"

definition sample_scan :: "Event list" where
  "sample_scan = [foo_bybit, bar_okx, foo_binance, foo_bybit\<lparr>Sent2h := True\<rparr>]"

section \<open>Evaluation of the model on concrete inputs\<close>

lemmas eval_defs = deduplicateCrossSource_def dedup_run_def group_of_def event_key_def
  utc_day_def Hour_def day0_def merge_cache_def Refresh_cache_def Refresh_def evict_def
  drop_losers_def upsert_def sourcePriority_def merge_one_def Let_def allEvents_def Events_def

lemmas sample_defs = foo_bybit_def foo_binance_def bar_okx_def sample_cache_def

section \<open>The reconciler\<close>

subsection \<open>Keys in the order of first appearance\<close>

lemma set_first_seen: "set (first_seen seen ks) = set ks - set seen"
  by (induction ks arbitrary: seen) auto

lemma distinct_first_seen: "distinct (first_seen seen ks)"
  by (induction ks arbitrary: seen) (auto simp: set_first_seen)

lemma first_seen_distinct_id:
  "distinct ks \<Longrightarrow> set ks \<inter> set seen = {} \<Longrightarrow> first_seen seen ks = ks"
  by (induction ks arbitrary: seen) auto

subsection \<open>The two loops\<close>

text \<open>
  After the first loop, \<open>groups\<close> maps each key of the input to its members in input
  order and \<open>order\<close> lists the keys by first appearance. So the second loop never
  meets an empty group, and the output is the list of the resolved groups.
\<close>

lemma group_events_groups:
  "fst (group_events es g ord) k =
     (if members k es = [] then g k else Some (group_of g k @ members k es))"
  by (induction es arbitrary: g ord) (auto simp: members_def group_of_def Let_def)

lemma group_events_order:
  "set seen = dom g \<Longrightarrow> snd (group_events es g ord) = ord @ first_seen seen (map event_key es)"
proof (induction es arbitrary: g ord seen)
  case Nil
  show ?case by simp
next
  case (Cons e es)
  let ?k = "event_key e"
  let ?g = "g(?k \<mapsto> group_of g ?k @ [e])"
  show ?case
  proof (cases "g ?k")
    case None
    with Cons.prems have fresh: "?k \<notin> set seen" by auto
    from Cons.prems have "set (?k # seen) = dom ?g" by simp
    then have "snd (group_events es ?g (ord @ [?k])) =
        (ord @ [?k]) @ first_seen (?k # seen) (map event_key es)"
      by (rule Cons.IH)
    with None fresh show ?thesis by (simp add: Let_def)
  next
    case (Some grp)
    with Cons.prems have old: "?k \<in> set seen" by auto
    from Cons.prems Some have "set seen = dom ?g" by auto
    then have "snd (group_events es ?g ord) = ord @ first_seen seen (map event_key es)"
      by (rule Cons.IH)
    with Some old show ?thesis by (simp add: Let_def)
  qed
qed

lemma collect_winners_map:
  "\<forall>k \<in> set ks. group_of groups k \<noteq> [] \<Longrightarrow>
   \<exists>out. collect_winners groups ks = Some out \<and>
         map Some out = map (\<lambda>k. resolve_group (group_of groups k)) ks"
proof (induction ks)
  case Nil
  show ?case by simp
next
  case (Cons k ks)
  then obtain out where out: "collect_winners groups ks = Some out"
    "map Some out = map (\<lambda>k. resolve_group (group_of groups k)) ks" by auto
  from Cons.prems obtain e0 rest where "group_of groups k = e0 # rest"
    by (cases "group_of groups k") auto
  with out show ?case by simp
qed

lemma dedup_run_char:
  "\<exists>out. dedup_run es = Some out \<and>
      map Some out = map (\<lambda>k. resolve_group (members k es)) (first_seen [] (map event_key es))"
proof -
  obtain groups ord where ge: "group_events es Map.empty [] = (groups, ord)"
    by (cases "group_events es Map.empty []")
  have g: "groups k = (if members k es = [] then None else Some (members k es))" for k
    using group_events_groups [of es Map.empty "[]" k] ge by (simp add: group_of_def)
  have o: "ord = first_seen [] (map event_key es)"
    using group_events_order [of "[]" Map.empty es "[]"] ge by simp
  have ne: "members k es \<noteq> []" if "k \<in> set ord" for k
  proof -
    from that o have "k \<in> event_key ` set es" by (simp add: set_first_seen)
    then show ?thesis by (auto simp: members_def filter_empty_conv)
  qed
  have go: "group_of groups k = members k es" for k
    by (simp add: group_of_def g)
  have "\<forall>k \<in> set ord. group_of groups k \<noteq> []" using ne go by simp
  from collect_winners_map [OF this] go o ge show ?thesis
    by (simp add: dedup_run_def)
qed

lemma dedup_run_total: "dedup_run es = Some (deduplicateCrossSource es)"
  using dedup_run_char [of es] by (auto simp: deduplicateCrossSource_def)

lemma dedup_char:
  "map Some (deduplicateCrossSource es) =
     map (\<lambda>k. resolve_group (members k es)) (first_seen [] (map event_key es))"
  using dedup_run_char [of es] by (auto simp: deduplicateCrossSource_def)


subsection \<open>The winner of one group\<close>

lemma pick_winner_split:
  "\<exists>pre post. w # rest = pre @ pick_winner w rest # post \<and>
     (\<forall>x \<in> set pre. prio (pick_winner w rest) < prio x) \<and>
     (\<forall>x \<in> set post. prio (pick_winner w rest) \<le> prio x)"
proof (induction rest arbitrary: w)
  case Nil
  show ?case by (intro exI [of _ "[]"]) simp
next
  case (Cons e es)
  define w' where "w' = (if prio e < prio w then e else w)"
  define m where "m = pick_winner w' es"
  have pw: "pick_winner w (e # es) = m" by (simp add: m_def w'_def)
  from Cons.IH [of w'] obtain pre post where
    split: "w' # es = pre @ m # post" and
    lo: "\<forall>x \<in> set pre. prio m < prio x" and
    hi: "\<forall>x \<in> set post. prio m \<le> prio x" unfolding m_def by blast
  have "w' \<in> set (pre @ m # post)" by (subst split [symmetric]) simp
  with lo hi have le_head: "prio m \<le> prio w'" by (auto simp: less_imp_le)
  have "\<exists>pre post. w # e # es = pre @ m # post \<and>
     (\<forall>x \<in> set pre. prio m < prio x) \<and> (\<forall>x \<in> set post. prio m \<le> prio x)"
  proof (cases "prio e < prio w")
    case True
    then have "w' = e" by (simp add: w'_def)
    with split have "w # e # es = (w # pre) @ m # post" by simp
    moreover from True le_head lo \<open>w' = e\<close> have "\<forall>x \<in> set (w # pre). prio m < prio x" by auto
    ultimately show ?thesis using hi by blast
  next
    case False
    then have w': "w' = w" by (simp add: w'_def)
    show ?thesis
    proof (cases pre)
      case Nil
      with split w' have "m = w" and "post = es" by simp_all
      then have "w # e # es = [] @ m # (e # post)" by simp
      moreover from \<open>m = w\<close> False hi have "\<forall>x \<in> set (e # post). prio m \<le> prio x" by auto
      moreover have "\<forall>x \<in> set []. prio m < prio x" by simp
      ultimately show ?thesis by blast
    next
      case (Cons p pre')
      with split w' have "p = w" and "es = pre' @ m # post" by simp_all
      then have "w # e # es = (w # e # pre') @ m # post" by simp
      moreover from Cons \<open>p = w\<close> False lo have "\<forall>x \<in> set (w # e # pre'). prio m < prio x"
        by auto
      ultimately show ?thesis using hi by blast
    qed
  qed
  then show ?case unfolding pw .
qed

lemma merge_flags_result:
  "merge_flags w g =
     w\<lparr>SentDigest := SentDigest w \<or> (\<exists>e \<in> set g. SentDigest e),
       Sent24h := Sent24h w \<or> (\<exists>e \<in> set g. Sent24h e),
       Sent2h := Sent2h w \<or> (\<exists>e \<in> set g. Sent2h e)\<rparr>"
  by (induction g arbitrary: w) (auto simp: merge_one_def)

lemma resolve_group_char:
  assumes "g \<noteq> []"
  shows "\<exists>pre m post. g = pre @ m # post \<and>
     (\<forall>x \<in> set pre. prio m < prio x) \<and> (\<forall>x \<in> set post. prio m \<le> prio x) \<and>
     resolve_group g = Some (union_flags g m)"
proof -
  from assms obtain e0 rest where g: "g = e0 # rest" by (cases g) auto
  let ?m = "pick_winner e0 rest"
  from pick_winner_split [of e0 rest] obtain pre post where
    split: "e0 # rest = pre @ ?m # post" and
    lo: "\<forall>x \<in> set pre. prio ?m < prio x" and
    hi: "\<forall>x \<in> set post. prio ?m \<le> prio x" by blast
  have mem: "?m \<in> set (e0 # rest)" by (subst split) simp
  have "resolve_group g = Some (union_flags g ?m)"
  proof (cases rest)
    case Nil
    with g show ?thesis by (simp add: union_flags_def)
  next
    case (Cons r rs)
    have "(SentDigest ?m \<or> (\<exists>e \<in> set (e0 # rest). SentDigest e)) =
        (\<exists>e \<in> set (e0 # rest). SentDigest e)"
      and "(Sent24h ?m \<or> (\<exists>e \<in> set (e0 # rest). Sent24h e)) =
        (\<exists>e \<in> set (e0 # rest). Sent24h e)"
      and "(Sent2h ?m \<or> (\<exists>e \<in> set (e0 # rest). Sent2h e)) =
        (\<exists>e \<in> set (e0 # rest). Sent2h e)"
      using mem by blast+
    then have "merge_flags ?m (e0 # rest) = union_flags (e0 # rest) ?m"
      by (simp only: merge_flags_result union_flags_def)
    with g Cons show ?thesis by simp
  qed
  with split lo hi g show ?thesis by blast
qed


subsection \<open>The output as a whole\<close>

lemma event_key_union_flags: "event_key (union_flags g m) = event_key m"
  by (simp add: union_flags_def event_key_def)

lemma other_fields_union_flags: "other_fields (union_flags g m) = other_fields m"
  by (simp add: union_flags_def other_fields_def)

text \<open>What the reconciler puts out for the group of a key that occurs in the input.\<close>

lemma winner_char:
  assumes "k \<in> event_key ` set es"
  shows "\<exists>pre m post. members k es = pre @ m # post \<and>
     (\<forall>x \<in> set pre. prio m < prio x) \<and> (\<forall>x \<in> set post. prio m \<le> prio x) \<and>
     resolve_group (members k es) = Some (union_flags (members k es) m) \<and>
     event_key (union_flags (members k es) m) = k"
proof -
  from assms have "members k es \<noteq> []" by (auto simp: members_def filter_empty_conv)
  from resolve_group_char [OF this] obtain pre m post where
    r: "members k es = pre @ m # post" "\<forall>x \<in> set pre. prio m < prio x"
      "\<forall>x \<in> set post. prio m \<le> prio x"
      "resolve_group (members k es) = Some (union_flags (members k es) m)" by blast
  from r(1) have "m \<in> set (members k es)" by simp
  then have "event_key m = k" by (simp add: members_def)
  with r show ?thesis by (metis event_key_union_flags)
qed

lemma map_Some_keys:
  "map Some ys = map f ks \<Longrightarrow> (\<And>k y. k \<in> set ks \<Longrightarrow> f k = Some y \<Longrightarrow> h y = k) \<Longrightarrow>
   map h ys = ks"
proof (induction ks arbitrary: ys)
  case Nil
  then show ?case by simp
next
  case (Cons k ks)
  from Cons.prems(1) obtain y ys' where ys: "ys = y # ys'" "f k = Some y"
    "map Some ys' = map f ks" by (cases ys) auto
  from Cons.IH [OF ys(3)] Cons.prems(2) have "map h ys' = ks" by simp
  moreover from Cons.prems(2) [of k y] ys(2) have "h y = k" by simp
  ultimately show ?case using ys(1) by simp
qed

lemma dedup_keys:
  "map event_key (deduplicateCrossSource es) = first_seen [] (map event_key es)"
proof (rule map_Some_keys [OF dedup_char])
  fix k y
  assume "k \<in> set (first_seen [] (map event_key es))"
    and y: "resolve_group (members k es) = Some y"
  then have "k \<in> event_key ` set es" by (simp add: set_first_seen)
  from winner_char [OF this] y show "event_key y = k" by auto
qed

lemma distinct_dedup_keys: "distinct (map event_key (deduplicateCrossSource es))"
  by (simp add: dedup_keys distinct_first_seen)

lemma dedup_member:
  assumes "k \<in> event_key ` set es" and "resolve_group (members k es) = Some w"
  shows "w \<in> set (deduplicateCrossSource es)"
proof -
  from assms(1) have "k \<in> set (first_seen [] (map event_key es))" by (simp add: set_first_seen)
  with assms(2) have "Some w \<in> set (map (\<lambda>k. resolve_group (members k es))
      (first_seen [] (map event_key es)))" by force
  then have "Some w \<in> set (map Some (deduplicateCrossSource es))" by (simp only: dedup_char)
  then show ?thesis by auto
qed

lemma members_unique:
  "distinct (map event_key xs) \<Longrightarrow> x \<in> set xs \<Longrightarrow> members (event_key x) xs = [x]"
  unfolding members_def
proof (induction xs)
  case Nil
  then show ?case by simp
next
  case (Cons a xs)
  show ?case
  proof (cases "x = a")
    case True
    from Cons.prems(1) have "event_key a \<notin> event_key ` set xs" by simp
    then have "\<forall>y \<in> set xs. event_key y \<noteq> event_key a" by (metis imageI)
    then have "filter (\<lambda>e. event_key e = event_key a) xs = []" by (simp add: filter_empty_conv)
    with True show ?thesis by simp
  next
    case False
    with Cons.prems have "x \<in> set xs" by simp
    moreover from Cons.prems(1) have "event_key a \<notin> event_key ` set xs" by simp
    ultimately have "event_key a \<noteq> event_key x" by (metis imageI)
    with Cons.IH Cons.prems(1) \<open>x \<in> set xs\<close> show ?thesis by simp
  qed
qed

lemma dedup_group:
  assumes "k \<in> event_key ` set es"
  shows "\<exists>pre m post. members k es = pre @ m # post \<and>
     (\<forall>x \<in> set pre. prio m < prio x) \<and> (\<forall>x \<in> set post. prio m \<le> prio x) \<and>
     members k (deduplicateCrossSource es) = [union_flags (members k es) m]"
proof -
  from winner_char [OF assms] obtain pre m post where
    r: "members k es = pre @ m # post" "\<forall>x \<in> set pre. prio m < prio x"
      "\<forall>x \<in> set post. prio m \<le> prio x"
      "resolve_group (members k es) = Some (union_flags (members k es) m)"
      "event_key (union_flags (members k es) m) = k" by blast
  from dedup_member [OF assms r(4)]
  have "union_flags (members k es) m \<in> set (deduplicateCrossSource es)" .
  from members_unique [OF distinct_dedup_keys this] r(5)
  have "members k (deduplicateCrossSource es) = [union_flags (members k es) m]" by simp
  with r show ?thesis by blast
qed

lemma dedup_distinct_id:
  assumes "distinct (map event_key ys)"
  shows "deduplicateCrossSource ys = ys"
proof -
  have fs: "first_seen [] (map event_key ys) = map event_key ys"
    using assms by (simp add: first_seen_distinct_id)
  have "map Some (deduplicateCrossSource ys) =
      map (\<lambda>y. resolve_group (members (event_key y) ys)) ys"
    by (simp add: dedup_char fs comp_def)
  also have "\<dots> = map Some ys"
    by (rule map_cong [OF refl]) (simp add: members_unique [OF assms])
  finally show ?thesis by (simp add: inj_map_eq_map)
qed

lemma sample_scan_members:
  "members (event_key foo_bybit) sample_scan = [foo_bybit, foo_binance, foo_bybit\<lparr>Sent2h := True\<rparr>]"
  by (simp add: members_def sample_scan_def eval_defs sample_defs)

lemma sample_scan_key: "event_key foo_bybit \<in> event_key ` set sample_scan"
  by (simp add: sample_scan_def)

text \<open>
  Claim C5. The output of \<open>deduplicateCrossSource\<close> holds exactly one record for each
  key (token, UTC day, type) of the input: the keys of the output are the keys of the
  input in the order of their first appearance, no key twice and none missing.
\<close>

theorem one_winner_per_key:
  "map event_key (deduplicateCrossSource es) = first_seen [] (map event_key es) \<and>
   distinct (map event_key (deduplicateCrossSource es)) \<and>
   set (map event_key (deduplicateCrossSource es)) = event_key ` set es"
  by (simp add: dedup_keys distinct_first_seen set_first_seen)

theorem one_winner_per_key_witness:
  "map event_key sample_scan =
     [event_key foo_bybit, event_key bar_okx, event_key foo_bybit, event_key foo_bybit] \<and>
   event_key foo_bybit \<noteq> event_key bar_okx \<and>
   map event_key (deduplicateCrossSource sample_scan) = [event_key foo_bybit, event_key bar_okx]"
proof -
  have k: "map event_key sample_scan =
     [event_key foo_bybit, event_key bar_okx, event_key foo_bybit, event_key foo_bybit]"
    by (simp add: sample_scan_def eval_defs sample_defs)
  have ne: "event_key foo_bybit \<noteq> event_key bar_okx"
    by (simp add: eval_defs sample_defs)
  from one_winner_per_key [of sample_scan]
  have "map event_key (deduplicateCrossSource sample_scan) =
    first_seen [] (map event_key sample_scan)" by blast
  with k ne show ?thesis by simp
qed

text \<open>
  Claim C4. For every key of the input, the output holds exactly one record \<open>w\<close> of that
  key, and it is a member \<open>m\<close> of the group (up to the flags): every member before
  \<open>m\<close> in the input has a strictly larger priority number and every member after it has
  one at least as large. So \<open>m\<close> is the first member with the lowest priority number,
  whatever the order of the input, and the output carries its source.
\<close>

theorem priority_winner:
  assumes "k \<in> event_key ` set es"
  shows "\<exists>w pre m post. members k (deduplicateCrossSource es) = [w] \<and>
     members k es = pre @ m # post \<and>
     (\<forall>x \<in> set pre. sourcePriority (Source m) < sourcePriority (Source x)) \<and>
     (\<forall>x \<in> set post. sourcePriority (Source m) \<le> sourcePriority (Source x)) \<and>
     other_fields w = other_fields m \<and> Source w = Source m"
proof -
  from dedup_group [OF assms] obtain pre m post where
    r: "members k es = pre @ m # post" "\<forall>x \<in> set pre. prio m < prio x"
      "\<forall>x \<in> set post. prio m \<le> prio x"
      "members k (deduplicateCrossSource es) = [union_flags (members k es) m]" by blast
  have "other_fields (union_flags (members k es) m) = other_fields m"
    and "Source (union_flags (members k es) m) = Source m"
    by (simp_all add: union_flags_def other_fields_def)
  with r show ?thesis by blast
qed

theorem priority_winner_witness:
  "event_key foo_bybit \<in> event_key ` set sample_scan \<and>
   map Source (members (event_key foo_bybit) sample_scan) = [''bybit'', ''binance'', ''bybit''] \<and>
   (\<exists>w. members (event_key foo_bybit) (deduplicateCrossSource sample_scan) = [w] \<and>
        Source w = ''binance'')"
proof -
  let ?g = "[foo_bybit, foo_binance, foo_bybit\<lparr>Sent2h := True\<rparr>]"
  from priority_winner [OF sample_scan_key] obtain w pre m post where
    w: "members (event_key foo_bybit) (deduplicateCrossSource sample_scan) = [w]"
    and split: "?g = pre @ m # post"
    and lo: "\<forall>x \<in> set pre. sourcePriority (Source m) < sourcePriority (Source x)"
    and hi: "\<forall>x \<in> set post. sourcePriority (Source m) \<le> sourcePriority (Source x)"
    and src: "Source w = Source m"
    unfolding sample_scan_members by blast
  have "foo_binance \<in> set ?g" by simp
  then have "foo_binance \<in> set (pre @ m # post)" by (simp only: split)
  with lo hi have "sourcePriority (Source m) \<le> sourcePriority (Source foo_binance)"
    by (auto simp: less_imp_le)
  then have le: "sourcePriority (Source m) \<le> 1"
    by (simp add: foo_binance_def sourcePriority_def)
  have "m \<in> set (pre @ m # post)" by simp
  then have "m \<in> set ?g" by (simp only: split)
  with le have "Source m = ''binance''"
    by (auto simp: sample_defs sourcePriority_def)
  with w src have "\<exists>w. members (event_key foo_bybit) (deduplicateCrossSource sample_scan) = [w] \<and>
        Source w = ''binance''" by simp
  moreover have "map Source ?g = [''bybit'', ''binance'', ''bybit'']" by (simp add: sample_defs)
  ultimately show ?thesis by (simp add: sample_scan_key sample_scan_members)
qed

text \<open>
  Claim C3. For every key of the input, each of the three flags of the one output record
  of that key is set exactly when some member of the group has it set in the input. This
  holds for groups of every size, those of size above one among them.
\<close>

theorem flag_union:
  assumes "k \<in> event_key ` set es"
  shows "\<exists>w. members k (deduplicateCrossSource es) = [w] \<and>
     (SentDigest w \<longleftrightarrow> (\<exists>m \<in> set (members k es). SentDigest m)) \<and>
     (Sent24h w \<longleftrightarrow> (\<exists>m \<in> set (members k es). Sent24h m)) \<and>
     (Sent2h w \<longleftrightarrow> (\<exists>m \<in> set (members k es). Sent2h m))"
proof -
  from dedup_group [OF assms] obtain m where
    "members k (deduplicateCrossSource es) = [union_flags (members k es) m]" by blast
  then show ?thesis by (simp add: union_flags_def)
qed

theorem flag_union_witness:
  "event_key foo_bybit \<in> event_key ` set sample_scan \<and>
   length (members (event_key foo_bybit) sample_scan) = 3 \<and>
   (\<exists>w. members (event_key foo_bybit) (deduplicateCrossSource sample_scan) = [w] \<and>
        \<not> SentDigest w \<and> \<not> Sent24h w \<and> Sent2h w)"
proof -
  let ?g = "[foo_bybit, foo_binance, foo_bybit\<lparr>Sent2h := True\<rparr>]"
  from flag_union [OF sample_scan_key] obtain w where
    w: "members (event_key foo_bybit) (deduplicateCrossSource sample_scan) = [w]"
    and "SentDigest w \<longleftrightarrow> (\<exists>m \<in> set ?g. SentDigest m)"
    and "Sent24h w \<longleftrightarrow> (\<exists>m \<in> set ?g. Sent24h m)"
    and "Sent2h w \<longleftrightarrow> (\<exists>m \<in> set ?g. Sent2h m)"
    unfolding sample_scan_members by blast
  then have "\<not> SentDigest w" and "\<not> Sent24h w" and "Sent2h w"
    by (simp_all add: sample_defs)
  with w have "\<exists>w. members (event_key foo_bybit) (deduplicateCrossSource sample_scan) = [w] \<and>
        \<not> SentDigest w \<and> \<not> Sent24h w \<and> Sent2h w" by blast
  then show ?thesis by (simp add: sample_scan_key sample_scan_members)
qed

text \<open>
  Claim C9. Reconciling an already reconciled list changes nothing.
\<close>

theorem dedup_idempotent:
  "deduplicateCrossSource (deduplicateCrossSource es) = deduplicateCrossSource es"
  by (rule dedup_distinct_id [OF distinct_dedup_keys])


section \<open>Flag marks\<close>

text \<open>
  Claim C8. For an id that is not in the cache, each of \<open>MarkSentDigest\<close>,
  \<open>MarkSent24h\<close> and \<open>MarkSent2h\<close> leaves the cache mapping as it was; the functions
  have no error result. For an id that is in the cache, the entry under that id has the
  corresponding flag set afterwards.
\<close>

theorem mark_absent_noop_present_sets:
  "(c eid = None \<longrightarrow>
      MarkSentDigest eid c = c \<and> MarkSent24h eid c = c \<and> MarkSent2h eid c = c) \<and>
   (c eid \<noteq> None \<longrightarrow>
      (\<exists>e. MarkSentDigest eid c eid = Some e \<and> SentDigest e) \<and>
      (\<exists>e. MarkSent24h eid c eid = Some e \<and> Sent24h e) \<and>
      (\<exists>e. MarkSent2h eid c eid = Some e \<and> Sent2h e))"
  by (auto simp: MarkSentDigest_def MarkSent24h_def MarkSent2h_def)

theorem mark_absent_noop_present_sets_witness:
  "sample_cache ''okx:BAR:20260110'' = None \<and>
   MarkSentDigest ''okx:BAR:20260110'' sample_cache = sample_cache \<and>
   MarkSent24h ''okx:BAR:20260110'' sample_cache = sample_cache \<and>
   MarkSent2h ''okx:BAR:20260110'' sample_cache = sample_cache \<and>
   sample_cache ''bybit:FOO:20260110'' \<noteq> None \<and>
   (\<exists>e. MarkSent24h ''bybit:FOO:20260110'' sample_cache ''bybit:FOO:20260110'' = Some e \<and>
        Sent24h e)"
  using mark_absent_noop_present_sets [of sample_cache "''okx:BAR:20260110''"]
    mark_absent_noop_present_sets [of sample_cache "''bybit:FOO:20260110''"]
  by (simp add: sample_cache_def)

text \<open>
  Claim C10. For an id that is in the cache, a flag mark changes nothing but the one flag
  of the entry under that id: every other entry is as before, and in the marked entry the
  id, type, source, token, title, date, url and details and the other two flags are as
  before.
\<close>

theorem mark_frame:
  assumes "c eid = Some e"
  shows "(\<forall>j. j \<noteq> eid \<longrightarrow>
            MarkSentDigest eid c j = c j \<and> MarkSent24h eid c j = c j \<and>
            MarkSent2h eid c j = c j) \<and>
         (\<exists>e'. MarkSentDigest eid c eid = Some e' \<and> other_fields e' = other_fields e \<and>
               Sent24h e' = Sent24h e \<and> Sent2h e' = Sent2h e) \<and>
         (\<exists>e'. MarkSent24h eid c eid = Some e' \<and> other_fields e' = other_fields e \<and>
               SentDigest e' = SentDigest e \<and> Sent2h e' = Sent2h e) \<and>
         (\<exists>e'. MarkSent2h eid c eid = Some e' \<and> other_fields e' = other_fields e \<and>
               SentDigest e' = SentDigest e \<and> Sent24h e' = Sent24h e)"
  using assms by (simp add: MarkSentDigest_def MarkSent24h_def MarkSent2h_def other_fields_def)

theorem mark_frame_witness:
  "sample_cache ''bybit:FOO:20260110'' = Some (foo_bybit\<lparr>SentDigest := True\<rparr>) \<and>
   MarkSent2h ''bybit:FOO:20260110'' sample_cache ''okx:BAR:20260110'' =
     sample_cache ''okx:BAR:20260110'' \<and>
   (\<exists>e'. MarkSent2h ''bybit:FOO:20260110'' sample_cache ''bybit:FOO:20260110'' = Some e' \<and>
         other_fields e' = other_fields (foo_bybit\<lparr>SentDigest := True\<rparr>) \<and>
         SentDigest e' \<and> \<not> Sent24h e')"
proof -
  have h: "sample_cache ''bybit:FOO:20260110'' = Some (foo_bybit\<lparr>SentDigest := True\<rparr>)"
    by (simp add: sample_cache_def)
  show ?thesis
    using h mark_frame [of sample_cache "''bybit:FOO:20260110''" "foo_bybit\<lparr>SentDigest := True\<rparr>"]
    by (simp add: foo_bybit_def)
qed

section \<open>Eviction\<close>

text \<open>
  Claim C7. The cache that \<open>Refresh\<close> leaves behind is the result of the eviction loop on
  the merged cache. It holds no entry dated more than 48 hours before \<open>now\<close>; an entry of
  the merged cache dated more than 48 hours before \<open>now\<close> is deleted, and an entry dated
  within the last 48 hours or later is kept as it is, whatever its source and flags.
\<close>

theorem eviction_cutoff:
  "Refresh_cache now scanned c = evict now (merge_cache scanned c) \<and>
   (\<forall>eid e. Refresh_cache now scanned c eid = Some e \<longrightarrow> now - 48 * Hour \<le> Date e) \<and>
   (\<forall>eid e. merge_cache scanned c eid = Some e \<and> Date e < now - 48 * Hour \<longrightarrow>
       Refresh_cache now scanned c eid = None) \<and>
   (\<forall>eid e. merge_cache scanned c eid = Some e \<and> now - 48 * Hour \<le> Date e \<longrightarrow>
       Refresh_cache now scanned c eid = Some e)"
  by (auto simp: Refresh_cache_def evict_def Let_def split: option.splits if_splits)

text \<open>
  At \<open>now = day0 + 49h\<close> the entry dated \<open>day0\<close> is 49 hours old and goes; the scanned
  event dated \<open>day0 + 2h\<close> is 47 hours old and stays.
\<close>

theorem eviction_cutoff_witness:
  "merge_cache [bar_okx] sample_cache ''bybit:FOO:20260110'' =
     Some (foo_bybit\<lparr>SentDigest := True\<rparr>) \<and>
   Date (foo_bybit\<lparr>SentDigest := True\<rparr>) = (day0 + 49 * Hour) - 49 * Hour \<and>
   Refresh_cache (day0 + 49 * Hour) [bar_okx] sample_cache ''bybit:FOO:20260110'' = None \<and>
   merge_cache [bar_okx] sample_cache ''okx:BAR:20260110'' = Some bar_okx \<and>
   Date bar_okx = (day0 + 49 * Hour) - 47 * Hour \<and>
   Refresh_cache (day0 + 49 * Hour) [bar_okx] sample_cache ''okx:BAR:20260110'' = Some bar_okx"
proof -
  have a: "merge_cache [bar_okx] sample_cache ''bybit:FOO:20260110'' =
      Some (foo_bybit\<lparr>SentDigest := True\<rparr>)"
    by (simp add: eval_defs sample_defs)
  have b: "merge_cache [bar_okx] sample_cache ''okx:BAR:20260110'' = Some bar_okx"
    by (simp add: eval_defs sample_defs)
  have da: "Date (foo_bybit\<lparr>SentDigest := True\<rparr>) < (day0 + 49 * Hour) - 48 * Hour"
    by (simp add: foo_bybit_def Hour_def)
  have db: "(day0 + 49 * Hour) - 48 * Hour \<le> Date bar_okx"
    by (simp add: bar_okx_def Hour_def)
  from eviction_cutoff [of "day0 + 49 * Hour" "[bar_okx]" sample_cache] a b da db
  have "Refresh_cache (day0 + 49 * Hour) [bar_okx] sample_cache ''bybit:FOO:20260110'' = None"
    and "Refresh_cache (day0 + 49 * Hour) [bar_okx] sample_cache ''okx:BAR:20260110'' =
      Some bar_okx"
    by blast+
  with a b show ?thesis by (simp add: foo_bybit_def bar_okx_def Hour_def)
qed

section \<open>The 24h-alert window\<close>

text \<open>
  Claim C6, as the code has it. \<open>EventsTomorrow\<close> returns the events with \<open>Sent24h\<close>
  unset whose date lies strictly between \<open>now + 20h\<close> and \<open>now + 28h\<close>, each as often as
  it occurs in the input, in ascending order of date. The two ends of the window are not
  part of it.
\<close>

theorem EventsTomorrow_open_window:
  "mset (EventsTomorrow now events) =
     mset (filter (\<lambda>e. \<not> Sent24h e \<and> now + 20 * Hour < Date e \<and> Date e < now + 28 * Hour)
             events) \<and>
   sorted (map Date (EventsTomorrow now events))"
  by (simp add: EventsTomorrow_def sortByDate_def Let_def)

text \<open>
  An event dated exactly \<open>now + 20h\<close> with \<open>Sent24h\<close> unset lies in the closed window of
  the claim and is not returned.
\<close>

theorem EventsTomorrow_closed_window_counterexample:
  "\<not> Sent24h foo_bybit \<and> Date foo_bybit = (day0 - 20 * Hour) + 20 * Hour \<and>
   foo_bybit \<notin> set (EventsTomorrow (day0 - 20 * Hour) [foo_bybit])"
  by (simp add: EventsTomorrow_def sortByDate_def foo_bybit_def Let_def)

section \<open>Refresh\<close>

lemma upsert_entry:
  "upsert f c i = Some x \<Longrightarrow> c i = Some x \<or> event_key x = event_key f"
  by (auto simp: upsert_def event_key_def split: option.splits if_splits)

lemma merge_fresh_entry:
  "merge_fresh fs c i = Some x \<Longrightarrow> c i = Some x \<or> (\<exists>f \<in> set fs. event_key x = event_key f)"
proof (induction fs arbitrary: c)
  case Nil
  then show ?case by simp
next
  case (Cons f fs)
  from Cons.prems have "merge_fresh fs (upsert f c) i = Some x" by simp
  from Cons.IH [OF this] show ?case using upsert_entry [of f c i x] by auto
qed

lemma drop_losers_entry:
  "drop_losers w c i = Some x \<longleftrightarrow> c i = Some x \<and> (i = ID w \<or> event_key x \<noteq> event_key w)"
  by (auto simp: drop_losers_def event_key_def split: option.splits)

lemma drop_all_losers_entry:
  "drop_all_losers ws c i = Some x \<longleftrightarrow>
     c i = Some x \<and> (\<forall>w \<in> set ws. i = ID w \<or> event_key x \<noteq> event_key w)"
  by (induction ws arbitrary: c) (auto simp: drop_losers_entry)

lemma evict_entry: "evict now c i = Some x \<Longrightarrow> c i = Some x"
  by (auto simp: evict_def Let_def split: option.splits if_splits)

lemma unique_keys_merge_cache:
  assumes "unique_keys c"
  shows "unique_keys (merge_cache scanned c)"
  unfolding unique_keys_def
proof (intro allI impI)
  fix i j x y
  define fresh where "fresh = deduplicateCrossSource scanned"
  assume a: "merge_cache scanned c i = Some x \<and> merge_cache scanned c j = Some y \<and>
    event_key x = event_key y"
  then have di: "drop_all_losers fresh (merge_fresh fresh c) i = Some x"
    and dj: "drop_all_losers fresh (merge_fresh fresh c) j = Some y"
    and k: "event_key x = event_key y"
    by (simp_all add: merge_cache_def fresh_def Let_def)
  from di have mi: "merge_fresh fresh c i = Some x"
    and wi: "\<forall>w \<in> set fresh. i = ID w \<or> event_key x \<noteq> event_key w"
    by (simp_all add: drop_all_losers_entry)
  from dj have mj: "merge_fresh fresh c j = Some y"
    and wj: "\<forall>w \<in> set fresh. j = ID w \<or> event_key y \<noteq> event_key w"
    by (simp_all add: drop_all_losers_entry)
  show "i = j"
  proof (cases "\<exists>w \<in> set fresh. event_key x = event_key w")
    case True
    then obtain w where "w \<in> set fresh" "event_key x = event_key w" by blast
    with wi wj k have "i = ID w" and "j = ID w" by auto
    then show ?thesis by simp
  next
    case False
    with merge_fresh_entry [OF mi] have "c i = Some x" by blast
    moreover from False k merge_fresh_entry [OF mj] have "c j = Some y" by auto
    ultimately show ?thesis using assms k unfolding unique_keys_def by blast
  qed
qed

lemma unique_keys_evict: "unique_keys c \<Longrightarrow> unique_keys (evict now c)"
  unfolding unique_keys_def by (meson evict_entry)

lemma unique_keys_Refresh_cache: "unique_keys c \<Longrightarrow> unique_keys (Refresh_cache now scanned c)"
  by (simp add: Refresh_cache_def unique_keys_evict unique_keys_merge_cache)

lemma set_allEvents: "set (allEvents ks c) = {e. \<exists>k \<in> set ks. c k = Some e}"
  by (auto simp: allEvents_def split: option.splits)

lemma allEvents_Cons:
  "allEvents (k # ks) c = (case c k of None \<Rightarrow> [] | Some e \<Rightarrow> [e]) @ allEvents ks c"
  by (simp add: allEvents_def)

lemma distinct_keys_allEvents:
  assumes "unique_keys c"
  shows "distinct ks \<Longrightarrow> distinct (map event_key (allEvents ks c))"
proof (induction ks)
  case Nil
  show ?case by (simp add: allEvents_def)
next
  case (Cons k ks)
  then have IH: "distinct (map event_key (allEvents ks c))" and k: "k \<notin> set ks" by simp_all
  show ?case
  proof (cases "c k")
    case None
    with IH show ?thesis by (simp add: allEvents_Cons)
  next
    case (Some e)
    have "event_key e \<notin> event_key ` set (allEvents ks c)"
    proof
      assume "event_key e \<in> event_key ` set (allEvents ks c)"
      then obtain j y where "j \<in> set ks" "c j = Some y" "event_key e = event_key y"
        by (auto simp: set_allEvents)
      with Some assms have "k = j" unfolding unique_keys_def by blast
      with k \<open>j \<in> set ks\<close> show False by simp
    qed
    with IH Some show ?thesis by (simp add: allEvents_Cons)
  qed
qed

text \<open>
  The empty cache has no two entries of one key, and the flag marks keep it so, as
  \<open>Refresh\<close> does.
\<close>

lemma unique_keys_empty: "unique_keys Map.empty"
  by (simp add: unique_keys_def)

lemma unique_keys_marks:
  assumes "unique_keys c"
  shows "unique_keys (MarkSentDigest eid c)" and "unique_keys (MarkSent24h eid c)"
    and "unique_keys (MarkSent2h eid c)"
proof -
  have mark: "unique_keys (c(eid \<mapsto> e'))" if "c eid = Some e" "event_key e' = event_key e"
    for e e'
    unfolding unique_keys_def
  proof (intro allI impI)
    fix i j x y
    assume a: "(c(eid \<mapsto> e')) i = Some x \<and> (c(eid \<mapsto> e')) j = Some y \<and>
      event_key x = event_key y"
    define x0 where "x0 = (if i = eid then e else x)"
    define y0 where "y0 = (if j = eid then e else y)"
    from a that have "c i = Some x0" "c j = Some y0" "event_key x0 = event_key y0"
      by (auto simp: x0_def y0_def split: if_splits)
    with assms show "i = j" unfolding unique_keys_def by blast
  qed
  show "unique_keys (MarkSentDigest eid c)"
    using assms by (auto simp: MarkSentDigest_def event_key_def split: option.splits intro!: mark)
  show "unique_keys (MarkSent24h eid c)"
    using assms by (auto simp: MarkSent24h_def event_key_def split: option.splits intro!: mark)
  show "unique_keys (MarkSent2h eid c)"
    using assms by (auto simp: MarkSent2h_def event_key_def split: option.splits intro!: mark)
qed

lemma unique_keys_sample: "unique_keys sample_cache"
  by (auto simp: unique_keys_def sample_cache_def split: if_splits)

text \<open>
  Claim C2, as the code has it. \<open>Refresh\<close> returns \<open>allEvents\<close> of the cache it leaves
  behind, one record per entry and not reconciled; \<open>Events\<close> on that cache is the
  reconciler applied to such a listing. If no two entries of the cache before the call
  share a key (token, UTC day, type), the same holds of the cache after it, and then what
  \<open>Refresh\<close> returns is what \<open>Events\<close> returns for the same order of visit.
\<close>

theorem Refresh_returns_cache_contents:
  assumes "iteration_of (snd (Refresh ks now scanned c)) ks"
  shows "fst (Refresh ks now scanned c) = allEvents ks (snd (Refresh ks now scanned c)) \<and>
     Events ks (snd (Refresh ks now scanned c)) =
       deduplicateCrossSource (fst (Refresh ks now scanned c)) \<and>
     (unique_keys c \<longrightarrow>
        unique_keys (snd (Refresh ks now scanned c)) \<and>
        fst (Refresh ks now scanned c) = Events ks (snd (Refresh ks now scanned c)))"
proof -
  let ?c' = "Refresh_cache now scanned c"
  have r: "Refresh ks now scanned c = (allEvents ks ?c', ?c')"
    by (simp add: Refresh_def Let_def)
  from assms r have d: "distinct ks" by (simp add: iteration_of_def)
  have "Events ks ?c' = allEvents ks ?c'" if "unique_keys c"
    unfolding Events_def
    by (rule dedup_distinct_id, rule distinct_keys_allEvents [OF _ d],
        rule unique_keys_Refresh_cache [OF that])
  then show ?thesis by (simp add: r Events_def unique_keys_Refresh_cache)
qed

theorem Refresh_returns_cache_contents_witness:
  "iteration_of (snd (Refresh [''binance:FOO:20260110''] (day0 - 30 * Hour) [foo_binance] sample_cache))
     [''binance:FOO:20260110''] \<and>
   unique_keys sample_cache \<and>
   fst (Refresh [''binance:FOO:20260110''] (day0 - 30 * Hour) [foo_binance] sample_cache) = [foo_binance] \<and>
   Events [''binance:FOO:20260110'']
     (snd (Refresh [''binance:FOO:20260110''] (day0 - 30 * Hour) [foo_binance] sample_cache)) = [foo_binance]"
proof -
  let ?r = "Refresh [''binance:FOO:20260110''] (day0 - 30 * Hour) [foo_binance] sample_cache"
  have i: "iteration_of (snd ?r) [''binance:FOO:20260110'']"
    by (auto simp: iteration_of_def dom_def eval_defs sample_defs split: if_splits)
  have f: "fst ?r = [foo_binance]"
    by (simp add: eval_defs sample_defs)
  from Refresh_returns_cache_contents [OF i] unique_keys_sample
  have "fst ?r = Events [''binance:FOO:20260110''] (snd ?r)" by blast
  with f have "Events [''binance:FOO:20260110''] (snd ?r) = [foo_binance]" by simp
  with i f unique_keys_sample show ?thesis by simp
qed

text \<open>
  On a cache with two entries of one key and a scan that brings nothing, \<open>Refresh\<close>
  returns both entries and \<open>Events\<close> only the winner.
\<close>

theorem Refresh_not_reconciled_counterexample:
  "iteration_of (snd (Refresh [''bybit:FOO:20260110'', ''binance:FOO:20260110''] day0 [] dup_cache))
     [''bybit:FOO:20260110'', ''binance:FOO:20260110''] \<and>
   fst (Refresh [''bybit:FOO:20260110'', ''binance:FOO:20260110''] day0 [] dup_cache) =
     [foo_bybit, foo_binance] \<and>
   Events [''bybit:FOO:20260110'', ''binance:FOO:20260110'']
     (snd (Refresh [''bybit:FOO:20260110'', ''binance:FOO:20260110''] day0 [] dup_cache)) =
     [foo_binance] \<and>
   fst (Refresh [''bybit:FOO:20260110'', ''binance:FOO:20260110''] day0 [] dup_cache) \<noteq>
   Events [''bybit:FOO:20260110'', ''binance:FOO:20260110'']
     (snd (Refresh [''bybit:FOO:20260110'', ''binance:FOO:20260110''] day0 [] dup_cache))"
proof -
  let ?ks = "[''bybit:FOO:20260110'', ''binance:FOO:20260110'']"
  let ?r = "Refresh ?ks day0 [] dup_cache"
  have i: "iteration_of (snd ?r) ?ks"
    by (auto simp: iteration_of_def dom_def eval_defs sample_defs dup_cache_def split: if_splits)
  have f: "fst ?r = [foo_bybit, foo_binance]"
    by (simp add: eval_defs sample_defs dup_cache_def)
  have e: "Events ?ks (snd ?r) = [foo_binance]"
    by (simp add: eval_defs sample_defs dup_cache_def)
  from i f e show ?thesis by simp
qed

text \<open>
  Claim C1, at a failing input. The cache holds the Bybit entry of an event with
  \<open>SentDigest\<close> set; the scan reports the same event from Binance only. After
  \<open>Refresh\<close> the Bybit entry is deleted as a loser and the Binance entry, which now
  stands for the event, has \<open>SentDigest\<close> unset: the flag of the event went from set
  to unset.
\<close>

theorem refresh_drops_sent_flag:
  "sample_cache ''bybit:FOO:20260110'' = Some (foo_bybit\<lparr>SentDigest := True\<rparr>) \<and>
   event_key foo_binance = event_key foo_bybit \<and>
   Events [''bybit:FOO:20260110''] sample_cache = [foo_bybit\<lparr>SentDigest := True\<rparr>] \<and>
   Refresh_cache (day0 - 30 * Hour) [foo_binance] sample_cache ''bybit:FOO:20260110'' = None \<and>
   Refresh_cache (day0 - 30 * Hour) [foo_binance] sample_cache ''binance:FOO:20260110'' =
     Some foo_binance \<and>
   \<not> SentDigest foo_binance \<and>
   Events [''binance:FOO:20260110'']
     (Refresh_cache (day0 - 30 * Hour) [foo_binance] sample_cache) = [foo_binance]"
  by (simp add: eval_defs sample_defs)

end
